theory Spec2Isabelle
  imports Main "HOL-Library.Word"
begin

section \<open>The configuration reader of mcproxy (src/parser/configuration.cpp)\<close>

text \<open>
  The class \<open>configuration\<close> reads a script file, deletes its comments, separates it into
  line-numbered commands, hands every command to the parser and, outside the debug and
  testing mode, resolves the interface names of every proxy instance. The functions below
  follow \<open>configuration.cpp\<close> one by one. A C++ exception is a value \<open>Inl e\<close> of the
  result type \<open>error + 'a\<close>; \<open>unsigned int\<close> is a 32-bit word, so that line counters and
  interface indexes wrap around as they do in the program; positions inside a
  \<open>std::string\<close> are natural numbers (they never exceed the length of the string).
\<close>

subsection \<open>Thrown values\<close>

text \<open>
  Every \<open>throw\<close> of \<open>configuration.cpp\<close> throws a string literal; each literal is one
  constructor. \<open>Parser_exception\<close> stands for whatever the class \<open>parser\<close>
  (include/parser/parser.hpp, not part of this file) throws.
\<close>

datatype error =
    Failed_to_open_config_file
  | Failed_to_parse_configfile
  | Unkown_parser_type
  | Unknown_interface
  | Failed_to_add_interface
  | Failed_to_add_instance
  | Parser_exception string

type_synonym uint = "32 word"

subsection \<open>Strings\<close>

abbreviation nl :: char where
  "nl \<equiv> CHR 0x0A"

text \<open>
  \<open>std::isspace\<close> in the "C" locale, in which the program runs: space, \<open>\t\<close>, \<open>\n\<close>,
  \<open>\v\<close>, \<open>\f\<close> and \<open>\r\<close>.
\<close>

definition isspace :: "char \<Rightarrow> bool" where
  "isspace c \<longleftrightarrow> c \<in> {CHR 0x20, CHR 0x09, CHR 0x0A, CHR 0x0B, CHR 0x0C, CHR 0x0D}"

text \<open>
  \<open>find_first c s\<close> is the index of the first \<open>c\<close> in \<open>s\<close>; \<open>str_find s c pos\<close> is
  \<open>s.find(c, pos)\<close>, with \<open>None\<close> for \<open>std::string::npos\<close>.
\<close>

fun find_first :: "char \<Rightarrow> string \<Rightarrow> nat option" where
  "find_first c [] = None"
| "find_first c (x # xs) = (if x = c then Some 0 else map_option Suc (find_first c xs))"

definition str_find :: "string \<Rightarrow> char \<Rightarrow> nat \<Rightarrow> nat option" where
  "str_find s c pos = map_option (\<lambda>i. pos + i) (find_first c (drop pos s))"

text \<open>\<open>s.erase(pos, n)\<close> and \<open>s.substr(pos, n)\<close>, both called with \<open>pos \<le> s.size()\<close> only.\<close>

definition str_erase :: "string \<Rightarrow> nat \<Rightarrow> nat \<Rightarrow> string" where
  "str_erase s pos n = take pos s @ drop (pos + n) s"

definition str_substr :: "string \<Rightarrow> nat \<Rightarrow> nat \<Rightarrow> string" where
  "str_substr s pos n = take n (drop pos s)"

text \<open>
  \<open>ltrim\<close> erases from the beginning up to the first character that is not a space,
  \<open>rtrim\<close> does the same from the end through reverse iterators, \<open>trim\<close> is
  \<open>ltrim(rtrim(s))\<close>.
\<close>

definition ltrim :: "string \<Rightarrow> string" where
  "ltrim s = dropWhile isspace s"

definition rtrim :: "string \<Rightarrow> string" where
  "rtrim s = rev (dropWhile isspace (rev s))"

definition trim :: "string \<Rightarrow> string" where
  "trim s = ltrim (rtrim s)"

text \<open>\<open>count_chars\<close>: the \<open>for_each\<close> increments an \<open>unsigned int\<close> for every match.\<close>

definition count_chars :: "string \<Rightarrow> char \<Rightarrow> uint" where
  "count_chars s comp_char = fold (\<lambda>c count. if c = comp_char then count + 1 else count) s 0"

text \<open>
  \<open>std::getline(stream, item, delim)\<close> on the characters still unread: it fails, and ends
  the loop that calls it, when nothing is left; otherwise it yields the characters before
  the first delimiter and consumes that delimiter, or yields all that is left when there
  is no delimiter. The result is the item and the rest of the stream.
\<close>

definition getline :: "string \<Rightarrow> char \<Rightarrow> (string \<times> string) option" where
  "getline stream delim =
     (if stream = [] then None
      else Some (takeWhile (\<lambda>c. c \<noteq> delim) stream,
                 drop 1 (dropWhile (\<lambda>c. c \<noteq> delim) stream)))"

lemma find_first_Some:
  "find_first c xs = Some i \<Longrightarrow>
   i < length xs \<and> xs ! i = c \<and> i = length (takeWhile (\<lambda>x. x \<noteq> c) xs)"
  by (induction xs arbitrary: i) (auto split: if_splits)

lemma find_first_None: "find_first c xs = None \<longleftrightarrow> c \<notin> set xs"
  by (induction xs) auto

lemma getline_shorter: "getline stream delim = Some (item, rest) \<Longrightarrow> length rest < length stream"
proof -
  assume g: "getline stream delim = Some (item, rest)"
  then have ne: "stream \<noteq> []" and r: "rest = drop 1 (dropWhile (\<lambda>c. c \<noteq> delim) stream)"
    by (auto simp: getline_def split: if_splits)
  have "length (dropWhile (\<lambda>c. c \<noteq> delim) stream) \<le> length stream"
    by (rule length_dropWhile_le)
  with ne show ?thesis
    unfolding r by (cases stream) (auto simp: le_Suc_eq)
qed

subsection \<open>\<open>load_file\<close>\<close>

text \<open>
  The file system is the function \<open>read_file\<close>: the bytes of the file at a path, or
  \<open>None\<close> when the file cannot be opened. The loop appends every line that \<open>getline\<close>
  yields, followed by \<open>std::endl\<close>.
\<close>

function load_file_loop :: "string \<Rightarrow> string \<Rightarrow> string" where
  "load_file_loop file result =
     (case getline file nl of
        None \<Rightarrow> result
      | Some (line, file') \<Rightarrow> load_file_loop file' (result @ line @ [nl]))"
  by pat_completeness auto
termination
  by (relation "measure (\<lambda>(file, result). length file)") (auto dest: getline_shorter)

declare load_file_loop.simps [simp del]

text \<open>A text with its last line terminated: nothing is added to an empty text.\<close>

definition terminated :: "string \<Rightarrow> string" where
  "terminated file = (if file = [] \<or> last file = nl then file else file @ [nl])"

definition load_file :: "(string \<Rightarrow> string option) \<Rightarrow> string \<Rightarrow> error + string" where
  "load_file read_file path =
     (case read_file path of
        None \<Rightarrow> Inl Failed_to_open_config_file
      | Some file \<Rightarrow> Inr (load_file_loop file []))"

subsection \<open>\<open>delete_comments\<close>\<close>

text \<open>
  The state of the \<open>while\<close> loop is the string and the position \<open>cc\<close> of the comment
  character found last (\<open>None\<close> for \<open>npos\<close>). Every turn erases at least that character,
  so the string gets shorter.
\<close>

function delete_comments_loop :: "string \<Rightarrow> nat option \<Rightarrow> string" where
  "delete_comments_loop script_file None = script_file"
| "delete_comments_loop script_file (Some cc) =
     (case str_find script_file nl (cc + 1) of
        None \<Rightarrow> str_substr script_file 0 cc
      | Some eoc \<Rightarrow>
          (let script_file' = str_erase script_file cc (eoc - cc)
           in delete_comments_loop script_file' (str_find script_file' (CHR ''#'') cc)))"
  by pat_completeness auto
termination
proof (relation "measure (\<lambda>(script_file, cc). length script_file)", goal_cases)
  case 1
  show ?case by simp
next
  case (2 script_file cc eoc script_file')
  then show ?case
    by (auto simp: str_find_def str_erase_def dest!: find_first_Some)
qed

definition delete_comments :: "string \<Rightarrow> string" where
  "delete_comments script_file =
     delete_comments_loop script_file (str_find script_file (CHR ''#'') 0)"

text \<open>
  What the specification asks of comment deletion, written after its words: a comment
  marker and everything up to, but not including, the next line terminator goes; a
  marker with no line terminator after it takes the rest of the input with it.
\<close>

function strip_comments :: "string \<Rightarrow> string" where
  "strip_comments [] = []"
| "strip_comments (c # cs) =
     (if c = CHR ''#'' then strip_comments (dropWhile (\<lambda>x. x \<noteq> nl) cs)
      else c # strip_comments cs)"
  by pat_completeness auto
termination
  by (relation "measure length") (auto simp: less_Suc_eq_le length_dropWhile_le)

subsection \<open>\<open>separate_commands\<close>\<close>

text \<open>
  The loop reads one item per turn up to the command separator. \<open>current_line\<close> and both
  line counts are \<open>unsigned int\<close>: the sums and the difference are taken modulo \<open>2^32\<close>.
\<close>

function separate_commands_loop ::
  "string \<Rightarrow> uint \<Rightarrow> (uint \<times> string) list \<Rightarrow> (uint \<times> string) list" where
  "separate_commands_loop ss current_line result =
     (case getline ss (CHR '';'') of
        None \<Rightarrow> result
      | Some (item, ss') \<Rightarrow>
          (let line_count_before = count_chars item nl;
               item1 = ltrim item;
               line_count_after = count_chars item1 nl;
               item2 = rtrim item1;
               result' =
                 (if item2 \<noteq> []
                  then result @ [(current_line + (line_count_before - line_count_after), item2)]
                  else result)
           in separate_commands_loop ss' (current_line + line_count_before) result'))"
  by pat_completeness auto
termination
  by (relation "measure (\<lambda>(ss, current_line, result). length ss)")
     (auto dest: getline_shorter)

declare separate_commands_loop.simps [simp del]

definition separate_commands :: "string \<Rightarrow> (uint \<times> string) list" where
  "separate_commands script_file = separate_commands_loop script_file 1 []"

text \<open>
  What the specification asks of command separation, written after its words and
  counted by hand, in natural numbers that never wrap: split at every separator, then
  walk the segments with a running line counter. A segment that is not empty after
  trimming is kept, trimmed, with the counter plus the number of newlines among the
  leading spaces trimmed away; the counter then grows by the number of newlines of the
  whole untrimmed segment. Trimming is defined here on its own, not through \<open>ltrim\<close>
  and \<open>rtrim\<close>: leading spaces go one by one, and a tail of nothing but spaces goes.
\<close>

fun split_at :: "char \<Rightarrow> string \<Rightarrow> string list" where
  "split_at d [] = [] # []"
| "split_at d (c # cs) =
     (if c = d then [] # split_at d cs
      else (case split_at d cs of
              [] \<Rightarrow> [c] # []
            | seg # segs \<Rightarrow> (c # seg) # segs))"

definition newlines :: "string \<Rightarrow> nat" where
  "newlines s = length (filter (\<lambda>c. c = nl) s)"

fun drop_leading_spaces :: "string \<Rightarrow> string" where
  "drop_leading_spaces [] = []"
| "drop_leading_spaces (c # cs) = (if isspace c then drop_leading_spaces cs else c # cs)"

fun leading_spaces :: "string \<Rightarrow> string" where
  "leading_spaces [] = []"
| "leading_spaces (c # cs) = (if isspace c then c # leading_spaces cs else [])"

fun drop_trailing_spaces :: "string \<Rightarrow> string" where
  "drop_trailing_spaces [] = []"
| "drop_trailing_spaces (c # cs) =
     (if list_all isspace (c # cs) then [] else c # drop_trailing_spaces cs)"

definition trimmed :: "string \<Rightarrow> string" where
  "trimmed s = drop_trailing_spaces (drop_leading_spaces s)"

fun number_segments :: "nat \<Rightarrow> string list \<Rightarrow> (nat \<times> string) list" where
  "number_segments counter [] = []"
| "number_segments counter (seg # segs) =
     (if trimmed seg = []
      then number_segments (counter + newlines seg) segs
      else (counter + newlines (leading_spaces seg), trimmed seg)
           # number_segments (counter + newlines seg) segs)"

definition split_commands :: "string \<Rightarrow> (nat \<times> string) list" where
  "split_commands text = number_segments 1 (split_at (CHR '';'') text)"

text \<open>
  A hand-counted command as the program stores it, with the line number in an
  \<open>unsigned int\<close>, and a command of the program with its line number read as a number.
\<close>

definition wrapped :: "nat \<times> string \<Rightarrow> uint \<times> string" where
  "wrapped c = (of_nat (fst c), snd c)"

definition unwrapped :: "uint \<times> string \<Rightarrow> nat \<times> string" where
  "unwrapped c = (unat (fst c), snd c)"

subsection \<open>The policy model\<close>

text \<open>
  Modelled from the spec: the enumerations and classes below are declared in headers that
  are not part of \<open>configuration.cpp\<close> (include/parser/parser.hpp, interface.hpp and
  include/proxy/interfaces.hpp). They follow section 3 of the specification and the
  members that \<open>configuration.cpp\<close> calls: \<open>get_name\<close>, \<open>get_instance_name\<close>,
  \<open>get_downstreams\<close>, \<open>get_upstreams\<close>, \<open>get_if_name\<close>. What a table holds and what
  filters an interface carries is never read here; both are left open as the type
  parameters \<open>'t\<close> and \<open>'f\<close>.
\<close>

datatype group_mem_protocol = IGMPv1 | IGMPv2 | IGMPv3 | MLDv1 | MLDv2

text \<open>\<open>PT_OTHER\<close> is any value of the enumeration that reaches \<open>default:\<close> in \<open>run_parser\<close>.\<close>

datatype parser_type =
  PT_PROTOCOL | PT_INSTANCE_DEFINITION | PT_TABLE | PT_INTERFACE_RULE_BINDING | PT_OTHER

record 't table =
  get_name :: string
  get_contents :: 't

record 'f interface =
  get_if_name :: string
  get_filters :: 'f

record 'f instance_definition =
  get_instance_name :: string
  get_downstreams :: "'f interface list"
  get_upstreams :: "'f interface list"

text \<open>
  Modelled from the spec: \<open>global_table_set::insert\<close> is not under src/. The Table Set is
  a registry with unique names; \<open>insert\<close> returns false (\<open>None\<close>), and leaves the set as it
  is, when a table of that name is already there.
\<close>

type_synonym 't global_table_set = "'t table list"

definition table_set_insert :: "'t table \<Rightarrow> 't global_table_set \<Rightarrow> 't global_table_set option" where
  "table_set_insert t ts =
     (if get_name t \<in> set (map get_name ts) then None else Some (ts @ [t]))"

text \<open>\<open>inst_def_set\<close>: the instances in the order in which the \<open>for\<close> loop visits them.\<close>

type_synonym 'f inst_def_set = "'f instance_definition list"

text \<open>
  Modelled from the spec: the class \<open>interfaces\<close> is not under src/. A Resolved Interface
  Group holds the numeric handles of one instance; it is made from the address family of
  the protocol and the reverse-path-filter flag, with no handle. Whether
  \<open>add_interface\<close> accepts a handle is decided outside this file: it is the parameter
  \<open>accepts\<close>. An accepted handle is stored.
\<close>

record interfaces =
  ifs_protocol :: group_mem_protocol
  ifs_reset_reverse_path_filter :: bool
  resolved_handles :: "uint list"

definition make_interfaces :: "group_mem_protocol \<Rightarrow> bool \<Rightarrow> interfaces" where
  "make_interfaces gmp reset_reverse_path_filter =
     \<lparr>ifs_protocol = gmp, ifs_reset_reverse_path_filter = reset_reverse_path_filter,
      resolved_handles = []\<rparr>"

definition add_interface ::
  "(interfaces \<Rightarrow> uint \<Rightarrow> bool) \<Rightarrow> interfaces \<Rightarrow> uint \<Rightarrow> interfaces option" where
  "add_interface accepts result if_index =
     (if accepts result if_index
      then Some (result\<lparr>resolved_handles := resolved_handles result @ [if_index]\<rparr>)
      else None)"

text \<open>
  The class \<open>parser\<close> is not under src/ either. \<open>run_parser\<close> builds one parser from
  the line and the text of a command and calls the members below, which are parameters
  of the model. Each may throw. A parser sees the command it was built from and the
  arguments of the call, nothing else.
\<close>

type_synonym command = "uint \<times> string"

record ('f, 't) parser =
  get_parser_type :: "command \<Rightarrow> error + parser_type"
  parse_group_mem_proto :: "command \<Rightarrow> error + group_mem_protocol"
  parse_instance_definition :: "command \<Rightarrow> 'f inst_def_set \<Rightarrow> error + 'f inst_def_set"
  parse_table :: "command \<Rightarrow> 't global_table_set \<Rightarrow> group_mem_protocol \<Rightarrow> error + 't table"
  parse_interface_rule_binding ::
    "command \<Rightarrow> 't global_table_set \<Rightarrow> group_mem_protocol \<Rightarrow> 'f inst_def_set
      \<Rightarrow> error + 'f inst_def_set"

text \<open>
  What lies outside the program: the files, the interface resolver
  \<open>interfaces::get_if_index\<close> (0 when the name is not found) and the decision of
  \<open>add_interface\<close>.
\<close>

record system =
  read_file :: "string \<Rightarrow> string option"
  get_if_index :: "string \<Rightarrow> uint"
  accepts_interface :: "interfaces \<Rightarrow> uint \<Rightarrow> bool"

text \<open>The data members of the class \<open>configuration\<close>.\<close>

record ('f, 't) configuration =
  m_in_debug_testing_mode :: bool
  m_reset_reverse_path_filter :: bool
  m_gmp :: group_mem_protocol
  m_global_table_set :: "'t global_table_set"
  m_inst_def_set :: "'f inst_def_set"
  m_cmds :: "command list"
  m_interfaces_map :: "string \<rightharpoonup> interfaces"

subsection \<open>\<open>run_parser\<close>\<close>

text \<open>One turn of the \<open>for\<close> loop: the \<open>switch\<close> on the type of the command \<open>e\<close>.\<close>

definition run_command ::
  "('f, 't) parser \<Rightarrow> command \<Rightarrow> ('f, 't) configuration \<Rightarrow> error + ('f, 't) configuration" where
  "run_command p e c =
     (case get_parser_type p e of
        Inl err \<Rightarrow> Inl err
      | Inr PT_PROTOCOL \<Rightarrow>
          (case parse_group_mem_proto p e of
             Inl err \<Rightarrow> Inl err
           | Inr gmp \<Rightarrow> Inr (c\<lparr>m_gmp := gmp\<rparr>))
      | Inr PT_INSTANCE_DEFINITION \<Rightarrow>
          (case parse_instance_definition p e (m_inst_def_set c) of
             Inl err \<Rightarrow> Inl err
           | Inr insts \<Rightarrow> Inr (c\<lparr>m_inst_def_set := insts\<rparr>))
      | Inr PT_TABLE \<Rightarrow>
          (case parse_table p e (m_global_table_set c) (m_gmp c) of
             Inl err \<Rightarrow> Inl err
           | Inr t \<Rightarrow>
               (case table_set_insert t (m_global_table_set c) of
                  None \<Rightarrow> Inl Failed_to_parse_configfile
                | Some ts \<Rightarrow> Inr (c\<lparr>m_global_table_set := ts\<rparr>)))
      | Inr PT_INTERFACE_RULE_BINDING \<Rightarrow>
          (case parse_interface_rule_binding p e (m_global_table_set c) (m_gmp c)
                  (m_inst_def_set c) of
             Inl err \<Rightarrow> Inl err
           | Inr insts \<Rightarrow> Inr (c\<lparr>m_inst_def_set := insts\<rparr>))
      | Inr PT_OTHER \<Rightarrow> Inl Unkown_parser_type)"

fun run_commands ::
  "('f, 't) parser \<Rightarrow> command list \<Rightarrow> ('f, 't) configuration \<Rightarrow> error + ('f, 't) configuration" where
  "run_commands p [] c = Inr c"
| "run_commands p (e # es) c =
     (case run_command p e c of
        Inl err \<Rightarrow> Inl err
      | Inr c' \<Rightarrow> run_commands p es c')"

definition run_parser ::
  "('f, 't) parser \<Rightarrow> ('f, 't) configuration \<Rightarrow> error + ('f, 't) configuration" where
  "run_parser p c = run_commands p (m_cmds c) c"

subsection \<open>\<open>initalize_interfaces\<close>\<close>

text \<open>The lambda \<open>add\<close>: resolve the name, give up on index 0, add the index to \<open>result\<close>.\<close>

definition add :: "system \<Rightarrow> 'f interface \<Rightarrow> interfaces \<Rightarrow> error + interfaces" where
  "add sys interf result =
     (let if_index = get_if_index sys (get_if_name interf)
      in if if_index = 0 then Inl Unknown_interface
         else (case add_interface (accepts_interface sys) result if_index of
                 None \<Rightarrow> Inl Failed_to_add_interface
               | Some result' \<Rightarrow> Inr result'))"

text \<open>The two inner \<open>for\<close> loops call \<open>add\<close> on every interface of a list, in order.\<close>

fun add_each :: "system \<Rightarrow> 'f interface list \<Rightarrow> interfaces \<Rightarrow> error + interfaces" where
  "add_each sys [] result = Inr result"
| "add_each sys (interf # rest) result =
     (case add sys interf result of
        Inl err \<Rightarrow> Inl err
      | Inr result' \<Rightarrow> add_each sys rest result')"

text \<open>
  The outer loop over the instances, on the map built so far: a fresh group, the
  downstreams, then the upstreams, then the insertion into \<open>m_interfaces_map\<close>, which
  fails when the name is already a key.
\<close>

fun initalize_instances ::
  "system \<Rightarrow> group_mem_protocol \<Rightarrow> bool \<Rightarrow> 'f inst_def_set \<Rightarrow> (string \<rightharpoonup> interfaces)
    \<Rightarrow> error + (string \<rightharpoonup> interfaces)" where
  "initalize_instances sys gmp rrpf [] interfaces_map = Inr interfaces_map"
| "initalize_instances sys gmp rrpf (inst # rest) interfaces_map =
     (case add_each sys (get_downstreams inst) (make_interfaces gmp rrpf) of
        Inl err \<Rightarrow> Inl err
      | Inr result1 \<Rightarrow>
          (case add_each sys (get_upstreams inst) result1 of
             Inl err \<Rightarrow> Inl err
           | Inr result \<Rightarrow>
               (case interfaces_map (get_instance_name inst) of
                  Some other \<Rightarrow> Inl Failed_to_add_instance
                | None \<Rightarrow>
                    initalize_instances sys gmp rrpf rest
                      (interfaces_map(get_instance_name inst \<mapsto> result)))))"

definition initalize_interfaces ::
  "system \<Rightarrow> ('f, 't) configuration \<Rightarrow> error + ('f, 't) configuration" where
  "initalize_interfaces sys c =
     (case initalize_instances sys (m_gmp c) (m_reset_reverse_path_filter c)
             (m_inst_def_set c) (m_interfaces_map c) of
        Inl err \<Rightarrow> Inl err
      | Inr interfaces_map \<Rightarrow> Inr (c\<lparr>m_interfaces_map := interfaces_map\<rparr>))"

subsection \<open>The constructor\<close>

text \<open>The members as the constructor initialises them, before the parser runs.\<close>

definition initial_configuration ::
  "bool \<Rightarrow> bool \<Rightarrow> command list \<Rightarrow> ('f, 't) configuration" where
  "initial_configuration reset_reverse_path_filter in_debug_testing_mode cmds =
     \<lparr>m_in_debug_testing_mode = in_debug_testing_mode,
      m_reset_reverse_path_filter = reset_reverse_path_filter,
      m_gmp = IGMPv3,
      m_global_table_set = [],
      m_inst_def_set = [],
      m_cmds = cmds,
      m_interfaces_map = Map.empty\<rparr>"

text \<open>
  The constructor initialises the members, reads and splits the script, runs the parser
  and, unless in debug and testing mode, resolves the interfaces. An exception at any
  step leaves the constructor: no \<open>configuration\<close> object comes into being, and whatever
  its members held by then is destroyed. That is the result \<open>Inl\<close>.
\<close>

definition new_configuration ::
  "('f, 't) parser \<Rightarrow> system \<Rightarrow> string \<Rightarrow> bool \<Rightarrow> bool \<Rightarrow> error + ('f, 't) configuration" where
  "new_configuration p sys path reset_reverse_path_filter in_debug_testing_mode =
     (case load_file (read_file sys) path of
        Inl err \<Rightarrow> Inl err
      | Inr script \<Rightarrow>
          (case run_parser p
                  (initial_configuration reset_reverse_path_filter in_debug_testing_mode
                     (separate_commands (delete_comments script))) of
             Inl err \<Rightarrow> Inl err
           | Inr c \<Rightarrow>
               (if \<not> m_in_debug_testing_mode c then initalize_interfaces sys c
                else Inr c)))"



subsection \<open>A parser and a system for examples\<close>

text \<open>
  Modelled from the spec: the parser of mcproxy is not under src/, and every theorem
  below holds for any parser. To run whole scripts, the examples use a small parser of
  three of the four command forms of section 4.2. Their syntax is the example's own,
  each command a list of words: \<open>protocol NAME\<close>, \<open>table NAME CONTENTS\<close> and
  \<open>pinstance NAME UPSTREAMS ==> DOWNSTREAMS\<close>. It refuses a second instance of the
  same name and every other command.
\<close>

definition words_of :: "string \<Rightarrow> string list" where
  "words_of s = filter (\<lambda>w. w \<noteq> []) (split_at (CHR '' '') s)"

definition example_parser_type :: "command \<Rightarrow> error + parser_type" where
  "example_parser_type e =
     (case words_of (snd e) of
        [] \<Rightarrow> Inl (Parser_exception ''empty command'')
      | w # ws \<Rightarrow>
          if w = ''protocol'' then Inr PT_PROTOCOL
          else if w = ''table'' then Inr PT_TABLE
          else if w = ''pinstance'' then Inr PT_INSTANCE_DEFINITION
          else Inl (Parser_exception ''unknown command''))"

definition example_group_mem_proto :: "command \<Rightarrow> error + group_mem_protocol" where
  "example_group_mem_proto e =
     (case words_of (snd e) of
        [w, n] \<Rightarrow>
          if n = ''IGMPv1'' then Inr IGMPv1
          else if n = ''IGMPv2'' then Inr IGMPv2
          else if n = ''IGMPv3'' then Inr IGMPv3
          else if n = ''MLDv1'' then Inr MLDv1
          else if n = ''MLDv2'' then Inr MLDv2
          else Inl (Parser_exception ''unknown protocol'')
      | _ \<Rightarrow> Inl (Parser_exception ''malformed protocol declaration''))"

definition example_table ::
  "command \<Rightarrow> (string list) global_table_set \<Rightarrow> group_mem_protocol
    \<Rightarrow> error + (string list) table" where
  "example_table e ts gmp =
     (case words_of (snd e) of
        w # n # contents \<Rightarrow> Inr \<lparr>get_name = n, get_contents = contents\<rparr>
      | _ \<Rightarrow> Inl (Parser_exception ''malformed table''))"

definition example_interface :: "string \<Rightarrow> unit interface" where
  "example_interface n = \<lparr>get_if_name = n, get_filters = ()\<rparr>"

definition example_instance_definition ::
  "command \<Rightarrow> unit inst_def_set \<Rightarrow> error + unit inst_def_set" where
  "example_instance_definition e insts =
     (case words_of (snd e) of
        w # n # ifs \<Rightarrow>
          if n \<in> set (map get_instance_name insts)
          then Inl (Parser_exception ''instance already exists'')
          else Inr (insts @
                 [\<lparr>get_instance_name = n,
                   get_downstreams =
                     map example_interface (drop 1 (dropWhile (\<lambda>x. x \<noteq> ''==>'') ifs)),
                   get_upstreams =
                     map example_interface (takeWhile (\<lambda>x. x \<noteq> ''==>'') ifs)\<rparr>])
      | _ \<Rightarrow> Inl (Parser_exception ''malformed instance definition''))"

definition example_interface_rule_binding ::
  "command \<Rightarrow> (string list) global_table_set \<Rightarrow> group_mem_protocol \<Rightarrow> unit inst_def_set
    \<Rightarrow> error + unit inst_def_set" where
  "example_interface_rule_binding e ts gmp insts = Inl (Parser_exception ''not supported'')"

definition example_parser :: "(unit, string list) parser" where
  "example_parser =
     \<lparr>get_parser_type = example_parser_type,
      parse_group_mem_proto = example_group_mem_proto,
      parse_instance_definition = example_instance_definition,
      parse_table = example_table,
      parse_interface_rule_binding = example_interface_rule_binding\<rparr>"

text \<open>
  A system with one file, \<open>mcproxy.conf\<close>, the interfaces \<open>eth0\<close> and \<open>eth1\<close> with the
  indexes 2 and 3, and an \<open>add_interface\<close> that accepts every index.
\<close>

definition example_read_file :: "string \<Rightarrow> string \<Rightarrow> string option" where
  "example_read_file script path = (if path = ''mcproxy.conf'' then Some script else None)"

definition example_if_index :: "string \<Rightarrow> uint" where
  "example_if_index n = (if n = ''eth0'' then 2 else if n = ''eth1'' then 3 else 0)"

definition example_accepts :: "interfaces \<Rightarrow> uint \<Rightarrow> bool" where
  "example_accepts result if_index = True"

definition example_system :: "string \<Rightarrow> system" where
  "example_system script =
     \<lparr>read_file = example_read_file script,
      get_if_index = example_if_index,
      accepts_interface = example_accepts\<rparr>"



section \<open>Properties\<close>

subsection \<open>Comment deletion\<close>

lemma strip_comments_no_marker: "CHR ''#'' \<notin> set xs \<Longrightarrow> strip_comments xs = xs"
  by (induction xs) auto

lemma strip_comments_prefix:
  "CHR ''#'' \<notin> set xs \<Longrightarrow> strip_comments (xs @ ys) = xs @ strip_comments ys"
  by (induction xs) auto

lemma strip_comments_split:
  assumes "CHR ''#'' \<notin> set (take i xs)"
  shows "strip_comments xs = take i xs @ strip_comments (drop i xs)"
  using strip_comments_prefix[OF assms, of "drop i xs"]
  by (simp only: append_take_drop_id)

lemma strip_comments_marker_free: "CHR ''#'' \<notin> set (strip_comments xs)"
  by (induction xs rule: strip_comments.induct) auto

lemma newlines_append: "newlines (xs @ ys) = newlines xs + newlines ys"
  by (simp add: newlines_def)

lemma newlines_dropWhile: "newlines (dropWhile (\<lambda>x. x \<noteq> nl) xs) = newlines xs"
  by (induction xs) (auto simp: newlines_def)

lemma newlines_strip_comments: "newlines (strip_comments xs) = newlines xs"
proof (induction xs rule: strip_comments.induct)
  case 1
  show ?case by simp
next
  case (2 c cs)
  show ?case
  proof (cases "c = CHR ''#''")
    case True
    with 2 have "newlines (strip_comments (c # cs)) = newlines cs"
      by (simp add: newlines_dropWhile)
    with True show ?thesis by (simp add: newlines_def)
  next
    case False
    with 2 show ?thesis by (simp add: newlines_def)
  qed
qed

lemma count_chars_fold:
  "fold (\<lambda>c count. if c = x then count + 1 else count) s (k :: uint) =
   k + of_nat (length (filter (\<lambda>c. c = x) s))"
  by (induction s arbitrary: k) auto

lemma count_chars_newlines: "count_chars s nl = of_nat (newlines s)"
  by (simp add: count_chars_def newlines_def count_chars_fold)

lemma delete_comments_loop_erase:
  "str_find s nl (cc + 1) = Some eoc \<Longrightarrow>
   delete_comments_loop s (Some cc) =
   delete_comments_loop (str_erase s cc (eoc - cc))
     (str_find (str_erase s cc (eoc - cc)) (CHR ''#'') cc)"
  by (simp add: Let_def)

lemma delete_comments_loop_strip:
  "cc < length s \<Longrightarrow> s ! cc = CHR ''#'' \<Longrightarrow>
   delete_comments_loop s (Some cc) = take cc s @ strip_comments (drop cc s)"
proof (induction "length s" arbitrary: s cc rule: less_induct)
  case less
  let ?rest = "drop (Suc cc) s"
  have dr: "drop cc s = CHR ''#'' # ?rest"
    using less(2,3) by (metis Cons_nth_drop_Suc)
  show ?case
  proof (cases "find_first nl ?rest")
    case None
    then have dw: "dropWhile (\<lambda>x. x \<noteq> nl) ?rest = []"
      by (auto simp: find_first_None)
    show ?thesis
      by (simp add: str_find_def str_substr_def dr None dw)
  next
    case (Some j)
    define eoc where "eoc = Suc cc + j"
    define s' where "s' = str_erase s cc (eoc - cc)"
    have j: "j = length (takeWhile (\<lambda>x. x \<noteq> nl) ?rest)" "j < length ?rest"
      using find_first_Some[OF Some] by auto
    have tail: "drop eoc s = dropWhile (\<lambda>x. x \<noteq> nl) ?rest"
      unfolding eoc_def j(1) by (metis drop_drop add.commute dropWhile_eq_drop)
    have s': "s' = take cc s @ drop eoc s"
      by (simp add: s'_def str_erase_def eoc_def)
    have dcs': "drop cc s' = drop eoc s"
      using less(2) by (simp add: s')
    have find: "str_find s nl (cc + 1) = Some eoc"
      by (simp add: str_find_def Some eoc_def)
    have goal: "strip_comments (drop cc s) = strip_comments (drop eoc s)"
      by (simp add: dr tail)
    have step: "delete_comments_loop s (Some cc) =
                delete_comments_loop s' (str_find s' (CHR ''#'') cc)"
      unfolding s'_def by (rule delete_comments_loop_erase[OF find])
    show ?thesis
    proof (cases "find_first (CHR ''#'') (drop eoc s)")
      case None
      then have "str_find s' (CHR ''#'') cc = None"
        by (simp add: str_find_def dcs')
      with step have "delete_comments_loop s (Some cc) = take cc s @ drop eoc s"
        by (simp add: s')
      moreover have "strip_comments (drop eoc s) = drop eoc s"
        using None by (intro strip_comments_no_marker) (simp add: find_first_None)
      ultimately show ?thesis by (simp add: goal)
    next
      case (Some i)
      note fs = find_first_Some[OF Some]
      have nxt: "str_find s' (CHR ''#'') cc = Some (cc + i)"
        by (simp add: str_find_def dcs' Some)
      have fs1: "i < length (drop eoc s)" and fs2: "drop eoc s ! i = CHR ''#''"
        using fs by blast+
      have lt: "cc + i < length s'" using fs1 less(2) by (simp add: s')
      have "s' ! (cc + i) = drop eoc s ! i"
        using less(2) by (simp add: s' nth_append)
      with fs2 have at: "s' ! (cc + i) = CHR ''#''" by simp
      have shorter: "length s' < length s"
        using less(2) j(2) by (simp add: s' eoc_def)
      have IH: "delete_comments_loop s' (Some (cc + i)) =
                take (cc + i) s' @ strip_comments (drop (cc + i) s')"
        using less(1)[OF shorter lt at] .
      have t: "take (cc + i) s' = take cc s @ take i (drop eoc s)"
        using less(2) by (simp add: s' take_add)
      have d: "drop (cc + i) s' = drop i (drop eoc s)"
        using less(2) by (simp add: s')
      have nm: "CHR ''#'' \<notin> set (take i (drop eoc s))"
        using fs by (metis (mono_tags, lifting) set_takeWhileD takeWhile_eq_take)
      have "strip_comments (drop eoc s) =
            take i (drop eoc s) @ strip_comments (drop i (drop eoc s))"
        by (rule strip_comments_split[OF nm])
      then show ?thesis
        using step nxt IH by (simp only: goal t d append_assoc)
    qed
  qed
qed

lemma delete_comments_strip: "delete_comments s = strip_comments s"
proof (cases "find_first (CHR ''#'') s")
  case None
  then have "CHR ''#'' \<notin> set s"
    by (simp add: find_first_None)
  with None show ?thesis
    by (simp add: delete_comments_def str_find_def strip_comments_no_marker)
next
  case (Some i)
  note fs = find_first_Some[OF Some]
  have nm: "CHR ''#'' \<notin> set (take i s)"
    using fs by (metis (mono_tags, lifting) set_takeWhileD takeWhile_eq_take)
  have "strip_comments s = take i s @ strip_comments (drop i s)"
    by (rule strip_comments_split[OF nm])
  moreover have "delete_comments s = delete_comments_loop s (Some i)"
    by (simp add: delete_comments_def str_find_def Some)
  moreover have "delete_comments_loop s (Some i) = take i s @ strip_comments (drop i s)"
    using fs by (intro delete_comments_loop_strip) auto
  ultimately show ?thesis by simp
qed

lemma strip_comments_comment:
  assumes "nl \<notin> set b"
  shows "strip_comments (CHR ''#'' # b @ nl # r) = nl # strip_comments r"
    and "strip_comments (CHR ''#'' # b) = []"
proof -
  have d1: "dropWhile (\<lambda>x. x \<noteq> nl) (b @ nl # r) = nl # r"
    using assms by (induction b) auto
  show "strip_comments (CHR ''#'' # b @ nl # r) = nl # strip_comments r"
    by (simp add: d1)
  have d2: "dropWhile (\<lambda>x. x \<noteq> nl) b = []"
    using assms by (induction b) auto
  show "strip_comments (CHR ''#'' # b) = []"
    by (simp add: d2)
qed

text \<open>
  C2. Comment deletion removes exactly the comments. The loop of \<open>delete_comments\<close>
  computes \<open>strip_comments\<close>, the function written after the words of the specification.
  Spelled out on one comment: when \<open>a\<close> holds no marker and \<open>b\<close> no line terminator, a
  comment \<open>#b\<close> before a line terminator goes and the terminator stays, whatever follows,
  also another marker right behind it; a comment \<open>#b\<close> with no line terminator after it
  goes with the rest of the input. Markers inside \<open>b\<close> belong to the comment.
\<close>

theorem delete_comments_removes_comments:
  assumes "CHR ''#'' \<notin> set a" and "nl \<notin> set b"
  shows "delete_comments s = strip_comments s \<and>
         delete_comments (a @ CHR ''#'' # b @ nl # r) = a @ nl # delete_comments r \<and>
         delete_comments (a @ CHR ''#'' # b) = a"
  using assms
  by (simp add: delete_comments_strip strip_comments_prefix strip_comments_comment
        del: strip_comments.simps)

theorem delete_comments_removes_comments_witness:
  "CHR ''#'' \<notin> set ''ab'' \<and> nl \<notin> set ''c#d'' \<and>
   delete_comments (''x#y'' @ [nl] @ ''z'') = strip_comments (''x#y'' @ [nl] @ ''z'') \<and>
   delete_comments (''ab'' @ CHR ''#'' # ''c#d'' @ nl # ''#e'') = ''ab'' @ nl # delete_comments ''#e'' \<and>
   delete_comments (''ab'' @ CHR ''#'' # ''c#d'') = ''ab''"
  using delete_comments_removes_comments[of "''ab''" "''c#d''" "''x#y'' @ [nl] @ ''z''" "''#e''"]
  by simp

text \<open>
  C3. Comment deletion is idempotent: deleting the comments of an output of
  \<open>delete_comments\<close> changes nothing.
\<close>

theorem delete_comments_idempotent:
  "delete_comments (delete_comments s) = delete_comments s"
  by (simp add: delete_comments_strip strip_comments_no_marker strip_comments_marker_free)

text \<open>
  C8. Comment deletion keeps every line terminator: the output has as many \<open>\n\<close> as the
  input, counted as a number and counted by \<open>count_chars\<close>, the way
  \<open>separate_commands\<close> counts lines afterwards.
\<close>

theorem delete_comments_preserves_newlines:
  "newlines (delete_comments s) = newlines s \<and>
   count_chars (delete_comments s) nl = count_chars s nl"
  by (simp add: delete_comments_strip newlines_strip_comments count_chars_newlines)

subsection \<open>Reading the file\<close>


lemma getline_Nil: "getline [] d = None"
  by (simp add: getline_def)

lemma getline_no_delim:
  "stream \<noteq> [] \<Longrightarrow> d \<notin> set stream \<Longrightarrow> getline stream d = Some (stream, [])"
proof -
  assume ne: "stream \<noteq> []" and nd: "d \<notin> set stream"
  have t: "takeWhile (\<lambda>c. c \<noteq> d) stream = stream"
    using nd by (induction stream) auto
  have dw: "dropWhile (\<lambda>c. c \<noteq> d) stream = []"
    using nd by (induction stream) auto
  show ?thesis using ne by (simp add: getline_def t dw)
qed

lemma getline_delim:
  "d \<notin> set item \<Longrightarrow> getline (item @ d # rest) d = Some (item, rest)"
proof -
  assume nd: "d \<notin> set item"
  have t: "takeWhile (\<lambda>c. c \<noteq> d) (item @ d # rest) = item"
    using nd by (induction item) auto
  have dw: "dropWhile (\<lambda>c. c \<noteq> d) (item @ d # rest) = d # rest"
    using nd by (induction item) auto
  show ?thesis by (simp add: getline_def t dw)
qed

lemma split_first:
  "d \<notin> set s \<or> (\<exists>item rest. d \<notin> set item \<and> s = item @ d # rest)"
proof (cases "d \<in> set s")
  case True
  then obtain item rest where "s = item @ d # rest" "d \<notin> set item"
    by (auto dest: split_list_first)
  then show ?thesis by blast
qed simp

lemma load_file_loop_terminated:
  "load_file_loop content acc = acc @ terminated content"
proof (induction "length content" arbitrary: content acc rule: less_induct)
  case less
  show ?case
  proof (cases "content = []")
    case True
    then show ?thesis
      by (subst load_file_loop.simps) (simp add: getline_Nil terminated_def)
  next
    case False
    from split_first[of nl content] show ?thesis
    proof
      assume nd: "nl \<notin> set content"
      with False have "last content \<noteq> nl" by (metis last_in_set)
      with False nd show ?thesis
        by (subst load_file_loop.simps, simp add: getline_no_delim,
            subst load_file_loop.simps, simp add: getline_Nil terminated_def)
    next
      assume "\<exists>item rest. nl \<notin> set item \<and> content = item @ nl # rest"
      then obtain item rest where nd: "nl \<notin> set item" and f: "content = item @ nl # rest"
        by blast
      have "length rest < length content" by (simp add: f)
      from less[OF this]
      have IH: "load_file_loop rest (acc @ item @ [nl]) =
                (acc @ item @ [nl]) @ terminated rest" .
      have "load_file_loop content acc = load_file_loop rest (acc @ item @ [nl])"
        unfolding f by (subst load_file_loop.simps) (simp add: getline_delim[OF nd])
      moreover have "terminated content = item @ nl # terminated rest"
        by (simp add: f terminated_def)
      ultimately show ?thesis using IH by simp
    qed
  qed
qed

text \<open>
  C10. \<open>load_file\<close> gives the file with every line terminated: the bytes of the file as
  they are when the file is empty or ends in \<open>\n\<close>, and with one \<open>\n\<close> appended to the
  last line otherwise. So the text returned for a readable file that is not empty ends
  in \<open>\n\<close>.
\<close>

theorem load_file_terminates_lines:
  assumes "read path = Some file"
  shows "load_file read path =
           Inr (if file = [] \<or> last file = nl then file else file @ [nl]) \<and>
         (file \<noteq> [] \<longrightarrow>
            (\<exists>text. load_file read path = Inr text \<and> text \<noteq> [] \<and> last text = nl))"
  using assms by (simp add: load_file_def load_file_loop_terminated terminated_def)

theorem load_file_terminates_lines_witness:
  "[''mcproxy.conf'' \<mapsto> ''protocol IGMPv3;''] ''mcproxy.conf'' = Some ''protocol IGMPv3;'' \<and>
   load_file [''mcproxy.conf'' \<mapsto> ''protocol IGMPv3;''] ''mcproxy.conf'' =
     Inr (''protocol IGMPv3;'' @ [nl])"
  using load_file_terminates_lines
    [of "[''mcproxy.conf'' \<mapsto> ''protocol IGMPv3;'']" "''mcproxy.conf''" "''protocol IGMPv3;''"]
  by simp

subsection \<open>Command separation\<close>

lemma split_at_not_Nil: "split_at d s \<noteq> []"
  by (induction s) (auto split: list.splits)

lemma split_at_no_delim: "d \<notin> set s \<Longrightarrow> split_at d s = [s]"
  by (induction s) auto

lemma split_at_first: "d \<notin> set item \<Longrightarrow> split_at d (item @ d # rest) = item # split_at d rest"
  by (induction item) auto

lemma drop_leading_spaces_ltrim: "drop_leading_spaces s = ltrim s"
  by (induction s) (auto simp: ltrim_def)

lemma leading_spaces_takeWhile: "leading_spaces s = takeWhile isspace s"
  by (induction s) auto

lemma rtrim_Cons:
  "rtrim (x # xs) = (if list_all isspace (x # xs) then [] else x # rtrim xs)"
  by (auto simp: rtrim_def dropWhile_append list_all_iff)

lemma drop_trailing_spaces_rtrim: "drop_trailing_spaces s = rtrim s"
proof (induction s)
  case Nil
  show ?case by (simp add: rtrim_def)
next
  case (Cons x xs)
  show ?case
    unfolding rtrim_Cons drop_trailing_spaces.simps Cons.IH ..
qed

lemma trimmed_code: "rtrim (ltrim s) = trimmed s"
  by (simp add: trimmed_def drop_leading_spaces_ltrim drop_trailing_spaces_rtrim)

lemma drop_trailing_spaces_ends:
  "drop_trailing_spaces s \<noteq> [] \<Longrightarrow> \<not> isspace (last (drop_trailing_spaces s))"
proof (induction s)
  case Nil
  then show ?case by simp
next
  case (Cons x xs)
  show ?case
  proof (cases "drop_trailing_spaces xs = []")
    case True
    have "list_all isspace xs"
      using True by (induction xs) (auto split: if_splits)
    with Cons.prems True show ?thesis by (auto split: if_splits)
  next
    case False
    with Cons show ?thesis by (auto split: if_splits)
  qed
qed

lemma drop_trailing_spaces_hd:
  "drop_trailing_spaces s \<noteq> [] \<Longrightarrow> hd (drop_trailing_spaces s) = hd s"
  by (cases s) (auto split: if_splits)

lemma drop_leading_spaces_hd:
  "drop_leading_spaces s \<noteq> [] \<Longrightarrow> \<not> isspace (hd (drop_leading_spaces s))"
  by (induction s) auto

lemma trimmed_ends:
  assumes "trimmed s \<noteq> []"
  shows "\<not> isspace (hd (trimmed s))" and "\<not> isspace (last (trimmed s))"
proof -
  from assms have ne: "drop_leading_spaces s \<noteq> []"
    by (auto simp: trimmed_def)
  from assms have "hd (trimmed s) = hd (drop_leading_spaces s)"
    unfolding trimmed_def by (rule drop_trailing_spaces_hd)
  with drop_leading_spaces_hd[OF ne] show "\<not> isspace (hd (trimmed s))" by simp
  from assms show "\<not> isspace (last (trimmed s))"
    unfolding trimmed_def by (rule drop_trailing_spaces_ends)
qed

lemma drop_trailing_spaces_rest:
  "\<exists>b. s = drop_trailing_spaces s @ b \<and> list_all isspace b"
proof (induction s)
  case Nil
  show ?case by simp
next
  case (Cons x xs)
  then obtain b where b: "xs = drop_trailing_spaces xs @ b" "list_all isspace b"
    by blast
  show ?case
  proof (cases "list_all isspace (x # xs)")
    case True
    then show ?thesis by (intro exI[of _ "x # xs"]) simp
  next
    case False
    have "x # xs = drop_trailing_spaces (x # xs) @ b"
      using False b(1) by auto
    with b(2) show ?thesis by blast
  qed
qed

lemma leading_spaces_rest:
  "s = leading_spaces s @ drop_leading_spaces s \<and> list_all isspace (leading_spaces s)"
  by (induction s) auto

lemma trimmed_inside:
  "\<exists>a b. seg = a @ trimmed seg @ b \<and> list_all isspace a \<and> list_all isspace b"
proof -
  from drop_trailing_spaces_rest[of "drop_leading_spaces seg"] obtain b where
    b: "drop_leading_spaces seg = trimmed seg @ b" "list_all isspace b"
    by (auto simp: trimmed_def)
  from leading_spaces_rest[of seg] b(1)
  have "seg = leading_spaces seg @ trimmed seg @ b" "list_all isspace (leading_spaces seg)"
    by simp_all
  with b(2) show ?thesis by blast
qed

lemma leading_newlines:
  "(of_nat (newlines item) :: uint) - of_nat (newlines (ltrim item)) =
   of_nat (newlines (leading_spaces item))"
proof -
  have "newlines item = newlines (takeWhile isspace item) + newlines (dropWhile isspace item)"
    by (metis newlines_append takeWhile_dropWhile_id)
  then show ?thesis
    by (simp add: ltrim_def leading_spaces_takeWhile)
qed

lemma separate_commands_loop_Nil: "separate_commands_loop [] current_line acc = acc"
  by (subst separate_commands_loop.simps) (simp add: getline_Nil)

lemma separate_commands_loop_item:
  assumes "getline ss (CHR '';'') = Some (item, ss')"
  shows "separate_commands_loop ss current_line acc =
         separate_commands_loop ss' (current_line + of_nat (newlines item))
           (if trimmed item = [] then acc
            else acc @ [(current_line + of_nat (newlines (leading_spaces item)), trimmed item)])"
  by (subst separate_commands_loop.simps)
     (simp add: assms Let_def leading_newlines trimmed_code count_chars_newlines)

lemma separate_commands_loop_segments:
  "separate_commands_loop ss (of_nat n) acc =
   acc @ map wrapped (number_segments n (split_at (CHR '';'') ss))"
proof (induction "length ss" arbitrary: ss n acc rule: less_induct)
  case less
  show ?case
  proof (cases "ss = []")
    case True
    then show ?thesis
      by (simp add: separate_commands_loop_Nil trimmed_def)
  next
    case False
    from split_first[of "CHR '';''" ss] show ?thesis
    proof
      assume nd: "CHR '';'' \<notin> set ss"
      then have "getline ss (CHR '';'') = Some (ss, [])"
        using False by (rule getline_no_delim[rotated])
      from separate_commands_loop_item[OF this] nd show ?thesis
        by (simp add: separate_commands_loop_Nil split_at_no_delim wrapped_def)
    next
      assume "\<exists>item rest. CHR '';'' \<notin> set item \<and> ss = item @ CHR '';'' # rest"
      then obtain item rest where nd: "CHR '';'' \<notin> set item"
        and ss: "ss = item @ CHR '';'' # rest"
        by blast
      have g: "getline ss (CHR '';'') = Some (item, rest)"
        unfolding ss by (rule getline_delim[OF nd])
      have shorter: "length rest < length ss" by (simp add: ss)
      have sp: "split_at (CHR '';'') ss = item # split_at (CHR '';'') rest"
        unfolding ss by (rule split_at_first[OF nd])
      have next_counter: "(of_nat n :: uint) + of_nat (newlines item) = of_nat (n + newlines item)"
        by simp
      show ?thesis
        unfolding separate_commands_loop_item[OF g] next_counter less[OF shorter] sp
        by (simp add: wrapped_def)
    qed
  qed
qed

lemma separate_commands_wrapped: "separate_commands s = map wrapped (split_commands s)"
  using separate_commands_loop_segments[of s 1 "[]"]
  by (simp add: separate_commands_def split_commands_def)

lemma map_snd_wrapped: "map snd (map wrapped cs) = map snd cs"
  by (simp add: wrapped_def comp_def)

lemma number_segments_texts:
  "map snd (number_segments counter segs) = filter (\<lambda>s. s \<noteq> []) (map trimmed segs)"
  by (induction segs arbitrary: counter) auto

lemma newlines_split_at:
  "d \<noteq> nl \<Longrightarrow> sum_list (map newlines (split_at d s)) = newlines s"
proof (induction s)
  case Nil
  show ?case by (simp add: newlines_def)
next
  case (Cons c cs)
  obtain seg segs where sp: "split_at d cs = seg # segs"
    using split_at_not_Nil[of d cs] by (cases "split_at d cs") auto
  show ?case
    using Cons sp by (auto simp: newlines_def)
qed

lemma newlines_leading_spaces_le: "newlines (leading_spaces s) \<le> newlines s"
  by (metis leading_spaces_rest newlines_append le_add1)

lemma number_segments_lines:
  "c \<in> set (number_segments n segs) \<Longrightarrow>
   n \<le> fst c \<and> fst c \<le> n + sum_list (map newlines segs)"
proof (induction segs arbitrary: n)
  case Nil
  then show ?case by simp
next
  case (Cons seg segs)
  have k: "newlines (leading_spaces seg) \<le> newlines seg"
    by (rule newlines_leading_spaces_le)
  from Cons.prems consider
    (here) "fst c = n + newlines (leading_spaces seg)"
    | (later) "c \<in> set (number_segments (n + newlines seg) segs)"
    by (auto split: if_splits)
  then show ?case
  proof cases
    case here
    with k show ?thesis by simp
  next
    case later
    from Cons.IH[OF later] show ?thesis by simp
  qed
qed

lemma number_segments_sorted: "sorted (map fst (number_segments n segs))"
proof (induction segs arbitrary: n)
  case Nil
  show ?case by simp
next
  case (Cons seg segs)
  have k: "newlines (leading_spaces seg) \<le> newlines seg"
    by (rule newlines_leading_spaces_le)
  have "n + newlines (leading_spaces seg) \<le> fst c"
    if "c \<in> set (number_segments (n + newlines seg) segs)" for c
    using number_segments_lines[OF that] k by simp
  with Cons.IH[of "n + newlines seg"] show ?case by auto
qed

lemma split_commands_lines:
  assumes "c \<in> set (split_commands text)"
  shows "1 \<le> fst c" and "fst c \<le> 1 + newlines text"
proof -
  have total: "sum_list (map newlines (split_at (CHR '';'') text)) = newlines text"
    by (rule newlines_split_at) simp
  from number_segments_lines[OF assms[unfolded split_commands_def]] total
  show "1 \<le> fst c" and "fst c \<le> 1 + newlines text" by simp_all
qed

lemma unat_line: "n < 2 ^ 32 \<Longrightarrow> unat (of_nat n :: uint) = n"
  by (simp add: unat_of_nat)

lemma unwrapped_wrapped:
  assumes "newlines text < 2 ^ 32 - 1"
  shows "map unwrapped (map wrapped (split_commands text)) = split_commands text"
proof -
  have "unwrapped (wrapped c) = c" if "c \<in> set (split_commands text)" for c
  proof -
    from split_commands_lines(2)[OF that] assms have "fst c < 2 ^ 32" by simp
    then show ?thesis by (simp add: unwrapped_def wrapped_def unat_line)
  qed
  then show ?thesis by (simp add: map_idI)
qed

lemma wrapped_sorted:
  assumes "newlines text < 2 ^ 32 - 1"
  shows "sorted (map fst (map wrapped (split_commands text)))"
proof -
  let ?cs = "split_commands text"
  have s: "sorted (map fst ?cs)"
    unfolding split_commands_def by (rule number_segments_sorted)
  have small: "k < 2 ^ 32" if "k \<in> set (map fst ?cs)" for k
  proof -
    from that obtain c where "c \<in> set ?cs" "k = fst c" by auto
    with split_commands_lines(2)[of c "text"] assms show ?thesis by simp
  qed
  have keeps_order: "sorted (map (of_nat :: nat \<Rightarrow> uint) ks)"
    if "sorted ks" "\<forall>k \<in> set ks. k < 2 ^ 32" for ks :: "nat list"
    using that
  proof (induction ks)
    case Nil
    show ?case by simp
  next
    case (Cons k ks)
    have "(of_nat k :: uint) \<le> of_nat j" if "j \<in> set ks" for j
    proof -
      from Cons.prems that have "k \<le> j" "k < 2 ^ 32" "j < 2 ^ 32" by auto
      then show ?thesis by (simp add: word_le_nat_alt unat_line)
    qed
    with Cons show ?case by auto
  qed
  from keeps_order[of "map fst ?cs"] s small
  have "sorted (map of_nat (map fst ?cs) :: uint list)" by blast
  moreover have "map fst (map wrapped ?cs) = map of_nat (map fst ?cs)"
    by (simp add: wrapped_def comp_def)
  ultimately show ?thesis by (simp only:)
qed

lemma wrapped_positive:
  assumes "newlines text < 2 ^ 32 - 1" and "l \<in> set (map fst (map wrapped (split_commands text)))"
  shows "1 \<le> l"
proof -
  from assms(2) obtain c where c: "c \<in> set (split_commands text)" "l = of_nat (fst c)"
    by (auto simp: wrapped_def)
  from split_commands_lines[OF c(1)] assms(1) have "1 \<le> fst c" "fst c < 2 ^ 32" by simp_all
  then have "1 \<le> unat l" unfolding c(2) by (simp add: unat_line)
  then show ?thesis by (simp add: word_le_nat_alt)
qed

lemma split_commands_after_newlines:
  "split_commands (replicate n nl @ ''a'') = [(1 + n, ''a'')]"
proof -
  have nd: "CHR '';'' \<notin> set (replicate n nl @ ''a'')" by auto
  have snl: "isspace nl" by (simp add: isspace_def)
  have sa: "\<not> isspace (CHR ''a'')" by (simp add: isspace_def)
  have dl: "drop_leading_spaces (replicate n nl @ ''a'') = ''a''"
    using snl sa by (induction n) auto
  have ls: "leading_spaces (replicate n nl @ ''a'') = replicate n nl"
    using snl sa by (induction n) auto
  have t: "trimmed (replicate n nl @ ''a'') = ''a''"
    using sa by (simp add: trimmed_def dl)
  have nb: "newlines (replicate n nl) = n"
    by (simp add: newlines_def)
  show ?thesis
    unfolding split_commands_def split_at_no_delim[OF nd]
    by (simp add: t ls nb)
qed

lemma split_commands_two:
  "split_commands (''a;'' @ replicate n nl @ ''b'') = [(1, ''a''), (1 + n, ''b'')]"
proof -
  have nd: "CHR '';'' \<notin> set (replicate n nl @ ''b'')" by auto
  have sp: "split_at (CHR '';'') (''a;'' @ replicate n nl @ ''b'') = [''a'', replicate n nl @ ''b'']"
    using split_at_first[of "CHR '';''" "''a''" "replicate n nl @ ''b''"]
    by (simp add: split_at_no_delim[OF nd])
  have snl: "isspace nl" by (simp add: isspace_def)
  have sb: "\<not> isspace (CHR ''b'')" by (simp add: isspace_def)
  have sa: "\<not> isspace (CHR ''a'')" by (simp add: isspace_def)
  have ta: "trimmed ''a'' = ''a''" "leading_spaces ''a'' = []"
    using sa by (simp_all add: trimmed_def)
  have dl: "drop_leading_spaces (replicate n nl @ ''b'') = ''b''"
    using snl sb by (induction n) auto
  have ls: "leading_spaces (replicate n nl @ ''b'') = replicate n nl"
    using snl sb by (induction n) auto
  have tb: "trimmed (replicate n nl @ ''b'') = ''b''"
    using sb by (simp add: trimmed_def dl)
  have nb: "newlines (replicate n nl) = n" "newlines [] = 0" "newlines ''a'' = 0"
    by (simp_all add: newlines_def)
  show ?thesis
    unfolding split_commands_def sp
    by (simp add: ta tb ls nb)
qed

text \<open>
  C4, as the code has it. For every text, comment-free or not, \<open>separate_commands\<close>
  returns the segments between the separators that are not empty after trimming,
  trimmed and in the order of the input, so as many commands as there are such segments;
  every command begins and ends with a character that is not a space, and lies in its
  segment between spaces only. The line number of a command is the number counted by
  hand (the running counter, which starts at 1 and grows by the newlines of each whole
  segment, plus the newlines among the leading spaces trimmed away) reduced modulo
  \<open>2^32\<close>, for it is kept in an \<open>unsigned int\<close>. For a text with fewer than \<open>2^32 - 1\<close>
  newlines it is the number counted by hand itself.
\<close>

theorem separate_commands_segments:
  "separate_commands text = map wrapped (split_commands text) \<and>
   map snd (separate_commands text) =
     filter (\<lambda>s. s \<noteq> []) (map trimmed (split_at (CHR '';'') text)) \<and>
   length (separate_commands text) =
     length (filter (\<lambda>seg. trimmed seg \<noteq> []) (split_at (CHR '';'') text)) \<and>
   (\<forall>c \<in> set (separate_commands text).
      snd c \<noteq> [] \<and> \<not> isspace (hd (snd c)) \<and> \<not> isspace (last (snd c))) \<and>
   (\<forall>seg \<in> set (split_at (CHR '';'') text).
      \<exists>a b. seg = a @ trimmed seg @ b \<and> list_all isspace a \<and> list_all isspace b) \<and>
   (newlines text < 2 ^ 32 - 1 \<longrightarrow>
      map unwrapped (separate_commands text) = split_commands text)"
proof -
  let ?segs = "split_at (CHR '';'') text"
  have texts: "map snd (separate_commands text) = filter (\<lambda>s. s \<noteq> []) (map trimmed ?segs)"
    unfolding separate_commands_wrapped map_snd_wrapped split_commands_def
    by (rule number_segments_texts)
  then have "length (map snd (separate_commands text)) =
        length (filter (\<lambda>s. s \<noteq> []) (map trimmed ?segs))"
    by simp
  then have len: "length (separate_commands text) =
        length (filter (\<lambda>seg. trimmed seg \<noteq> []) ?segs)"
    by (simp add: filter_map comp_def)
  have ends: "snd c \<noteq> [] \<and> \<not> isspace (hd (snd c)) \<and> \<not> isspace (last (snd c))"
    if "c \<in> set (separate_commands text)" for c
  proof -
    from that have "snd c \<in> set (map snd (separate_commands text))" by simp
    then obtain seg where "snd c = trimmed seg" "trimmed seg \<noteq> []"
      unfolding texts by auto
    with trimmed_ends[of seg] show ?thesis by simp
  qed
  have inside: "\<forall>seg \<in> set ?segs.
      \<exists>a b. seg = a @ trimmed seg @ b \<and> list_all isspace a \<and> list_all isspace b"
    using trimmed_inside by blast
  have hand: "map unwrapped (separate_commands text) = split_commands text"
    if "newlines text < 2 ^ 32 - 1"
    unfolding separate_commands_wrapped by (rule unwrapped_wrapped[OF that])
  from texts len ends inside hand show ?thesis
    by (simp add: separate_commands_wrapped)
qed

theorem separate_commands_segments_witness:
  "newlines ([nl] @ '' a b  ;'' @ [nl, nl, CHR 0x09] @ ''c'' @ [nl] @ '';  ;'') < 2 ^ 32 - 1 \<and>
   separate_commands ([nl] @ '' a b  ;'' @ [nl, nl, CHR 0x09] @ ''c'' @ [nl] @ '';  ;'') =
     [(2, ''a b''), (4, ''c'')] \<and>
   split_commands ([nl] @ '' a b  ;'' @ [nl, nl, CHR 0x09] @ ''c'' @ [nl] @ '';  ;'') =
     [(2, ''a b''), (4, ''c'')]"
proof -
  let ?text = "[nl] @ '' a b  ;'' @ [nl, nl, CHR 0x09] @ ''c'' @ [nl] @ '';  ;''"
  have h: "newlines ?text < 2 ^ 32 - 1"
    by (simp add: newlines_def)
  have s: "split_commands ?text = [(2, ''a b''), (4, ''c'')]"
    by (simp add: split_commands_def trimmed_def isspace_def newlines_def)
  from separate_commands_segments[of ?text] h s
  show ?thesis by (simp add: wrapped_def)
qed

text \<open>
  The claim C4 as written, for every text, fails where the counter wraps: a command after
  \<open>2^32 - 1\<close> newlines is on line \<open>2^32\<close> counted by hand, and gets line number 0.
\<close>

theorem separate_commands_line_not_counted:
  "separate_commands (replicate 4294967295 nl @ ''a'') = [(0, ''a'')] \<and>
   split_commands (replicate 4294967295 nl @ ''a'') = [(4294967296, ''a'')]"
proof -
  have "(of_nat (1 + 4294967295) :: uint) = 0" by simp
  then show ?thesis
    unfolding separate_commands_wrapped split_commands_after_newlines
    by (simp add: wrapped_def)
qed

text \<open>
  C9, as the code has it. The line numbers of \<open>separate_commands\<close> are \<open>unsigned int\<close>
  and wrap around at \<open>2^32\<close>. For a text with fewer than \<open>2^32 - 1\<close> newlines they
  never wrap: the line numbers are in nondecreasing order and each is at least 1. For
  every text, whatever its length, the commands come out in the order of their segments.
\<close>

theorem separate_commands_lines_nondecreasing:
  "(newlines text < 2 ^ 32 - 1 \<longrightarrow>
      sorted (map fst (separate_commands text)) \<and>
      (\<forall>l \<in> set (map fst (separate_commands text)). 1 \<le> l)) \<and>
   map snd (separate_commands text) =
     filter (\<lambda>s. s \<noteq> []) (map trimmed (split_at (CHR '';'') text))"
proof -
  have "map snd (separate_commands text) =
        filter (\<lambda>s. s \<noteq> []) (map trimmed (split_at (CHR '';'') text))"
    unfolding separate_commands_wrapped map_snd_wrapped split_commands_def
    by (rule number_segments_texts)
  moreover have "sorted (map fst (separate_commands text))"
    if "newlines text < 2 ^ 32 - 1"
    unfolding separate_commands_wrapped by (rule wrapped_sorted[OF that])
  moreover have "\<forall>l \<in> set (map fst (separate_commands text)). 1 \<le> l"
    if "newlines text < 2 ^ 32 - 1"
    unfolding separate_commands_wrapped using wrapped_positive[OF that] by blast
  ultimately show ?thesis by blast
qed

theorem separate_commands_lines_nondecreasing_witness:
  "newlines ([nl] @ ''a;'' @ [nl, nl] @ ''b;'') < 2 ^ 32 - 1 \<and>
   sorted (map fst (separate_commands ([nl] @ ''a;'' @ [nl, nl] @ ''b;''))) \<and>
   map fst (separate_commands ([nl] @ ''a;'' @ [nl, nl] @ ''b;'')) = [2, 4] \<and>
   map snd (separate_commands ([nl] @ ''a;'' @ [nl, nl] @ ''b;'')) = [''a'', ''b'']"
proof -
  let ?text = "[nl] @ ''a;'' @ [nl, nl] @ ''b;''"
  have h: "newlines ?text < 2 ^ 32 - 1"
    by (simp add: newlines_def)
  have s: "separate_commands ?text = [(2, ''a''), (4, ''b'')]"
    by (simp add: separate_commands_wrapped split_commands_def wrapped_def trimmed_def
        isspace_def newlines_def)
  have t: "filter (\<lambda>s. s \<noteq> []) (map trimmed (split_at (CHR '';'') ?text)) = [''a'', ''b'']"
    by (simp add: trimmed_def isspace_def)
  from separate_commands_lines_nondecreasing[of ?text] h
  have "sorted (map fst (separate_commands ?text))"
    and "map snd (separate_commands ?text) =
         filter (\<lambda>s. s \<noteq> []) (map trimmed (split_at (CHR '';'') ?text))"
    by blast+
  with h t show ?thesis
    unfolding s by simp
qed

text \<open>
  The claim C9 as written, for every text, fails where the counter wraps: after a command
  on line 1 and \<open>2^32 - 1\<close> newlines, the next command gets line number 0.
\<close>

theorem separate_commands_line_wraps:
  "separate_commands (''a;'' @ replicate 4294967295 nl @ ''b'') = [(1, ''a''), (0, ''b'')]"
proof -
  have "(of_nat (1 + 4294967295) :: uint) = 0" by simp
  then show ?thesis
    unfolding separate_commands_wrapped split_commands_two
    by (simp add: wrapped_def)
qed

subsection \<open>Running the parser\<close>

lemma run_commands_append:
  "run_commands p (es @ es') c =
   (case run_commands p es c of Inl err \<Rightarrow> Inl err | Inr c' \<Rightarrow> run_commands p es' c')"
  by (induction es arbitrary: c) (auto split: sum.splits)



lemma run_command_tables:
  "run_command p e c = Inr c' \<Longrightarrow>
   m_global_table_set c' = m_global_table_set c \<or>
   (\<exists>t. get_name t \<notin> set (map get_name (m_global_table_set c)) \<and>
        m_global_table_set c' = m_global_table_set c @ [t])"
  by (auto simp: run_command_def table_set_insert_def
      split: sum.splits parser_type.splits option.splits if_splits)

lemma run_command_keeps_table:
  assumes "run_command p e c = Inr c'" and "n \<in> set (map get_name (m_global_table_set c))"
  shows "filter (\<lambda>t. get_name t = n) (m_global_table_set c') =
         filter (\<lambda>t. get_name t = n) (m_global_table_set c)"
  using run_command_tables[OF assms(1)] assms(2) by auto

lemma run_commands_keeps_table:
  "run_commands p es c = Inr c' \<Longrightarrow> n \<in> set (map get_name (m_global_table_set c)) \<Longrightarrow>
   filter (\<lambda>t. get_name t = n) (m_global_table_set c') =
   filter (\<lambda>t. get_name t = n) (m_global_table_set c)"
proof (induction es arbitrary: c)
  case Nil
  then show ?case by simp
next
  case (Cons e es)
  from Cons.prems(1) obtain c1 where 1: "run_command p e c = Inr c1"
    and 2: "run_commands p es c1 = Inr c'"
    by (auto split: sum.splits)
  have keep: "filter (\<lambda>t. get_name t = n) (m_global_table_set c1) =
              filter (\<lambda>t. get_name t = n) (m_global_table_set c)"
    by (rule run_command_keeps_table[OF 1 Cons.prems(2)])
  have "filter (\<lambda>t. get_name t = n) (m_global_table_set c) \<noteq> []"
    using Cons.prems(2) by (auto simp: filter_empty_conv)
  with keep have "filter (\<lambda>t. get_name t = n) (m_global_table_set c1) \<noteq> []"
    by simp
  then have "n \<in> set (map get_name (m_global_table_set c1))"
    by (auto simp: filter_empty_conv)
  from Cons.IH[OF 2 this] keep show ?case by simp
qed

text \<open>
  C1, as the code has it. \<open>run_parser\<close> keeps no record of an earlier Protocol
  Declaration: a command of that type which the parser accepts sets the protocol, whatever
  its value was, and two declarations in a row leave the value of the second. The parser
  is built from the command alone, so it cannot refuse the second one for being the
  second.
\<close>

theorem protocol_declaration_overwrites:
  assumes "get_parser_type p e1 = Inr PT_PROTOCOL"
    and "parse_group_mem_proto p e1 = Inr gmp1"
    and "get_parser_type p e2 = Inr PT_PROTOCOL"
    and "parse_group_mem_proto p e2 = Inr gmp2"
  shows "run_command p e2 c = Inr (c\<lparr>m_gmp := gmp2\<rparr>) \<and>
         run_commands p [e1, e2] c = Inr (c\<lparr>m_gmp := gmp2\<rparr>)"
  using assms by (simp add: run_command_def)

theorem protocol_declaration_overwrites_witness:
  "get_parser_type example_parser (1, ''protocol IGMPv2'') = Inr PT_PROTOCOL \<and>
   parse_group_mem_proto example_parser (1, ''protocol IGMPv2'') = Inr IGMPv2 \<and>
   get_parser_type example_parser (2, ''protocol MLDv2'') = Inr PT_PROTOCOL \<and>
   parse_group_mem_proto example_parser (2, ''protocol MLDv2'') = Inr MLDv2 \<and>
   run_commands example_parser [(1, ''protocol IGMPv2''), (2, ''protocol MLDv2'')]
     (initial_configuration False True []) =
   Inr ((initial_configuration False True [] :: (unit, string list) configuration)
         \<lparr>m_gmp := MLDv2\<rparr>)"
proof -
  have 1: "get_parser_type example_parser (1, ''protocol IGMPv2'') = Inr PT_PROTOCOL"
    by (simp add: example_parser_def example_parser_type_def words_of_def)
  have 2: "parse_group_mem_proto example_parser (1, ''protocol IGMPv2'') = Inr IGMPv2"
    by (simp add: example_parser_def example_group_mem_proto_def words_of_def)
  have 3: "get_parser_type example_parser (2, ''protocol MLDv2'') = Inr PT_PROTOCOL"
    by (simp add: example_parser_def example_parser_type_def words_of_def)
  have 4: "parse_group_mem_proto example_parser (2, ''protocol MLDv2'') = Inr MLDv2"
    by (simp add: example_parser_def example_group_mem_proto_def words_of_def)
  from protocol_declaration_overwrites[OF 1 2 3 4, of "initial_configuration False True []"]
    1 2 3 4
  show ?thesis by simp
qed

text \<open>
  The claim C1 as written fails: a script that declares the protocol twice compiles, and
  the second declaration has replaced the first.
\<close>

theorem protocol_declared_twice_compiles:
  "new_configuration example_parser
     (example_system (''protocol IGMPv2;'' @ [nl] @ ''protocol MLDv2;'' @ [nl]))
     ''mcproxy.conf'' False True =
   Inr \<lparr>m_in_debug_testing_mode = True,
        m_reset_reverse_path_filter = False,
        m_gmp = MLDv2,
        m_global_table_set = [],
        m_inst_def_set = [],
        m_cmds = [(1, ''protocol IGMPv2''), (2, ''protocol MLDv2'')],
        m_interfaces_map = Map.empty\<rparr>"
proof -
  let ?script = "''protocol IGMPv2;'' @ [nl] @ ''protocol MLDv2;'' @ [nl]"
  have loaded: "load_file (read_file (example_system ?script)) ''mcproxy.conf'' = Inr ?script"
    by (simp add: load_file_def example_system_def example_read_file_def
        load_file_loop_terminated terminated_def)
  have cmds: "separate_commands (delete_comments ?script) =
              [(1, ''protocol IGMPv2''), (2, ''protocol MLDv2'')]"
    by (simp add: delete_comments_strip separate_commands_wrapped split_commands_def
        wrapped_def trimmed_def isspace_def newlines_def)
  have 1: "get_parser_type example_parser (1, ''protocol IGMPv2'') = Inr PT_PROTOCOL"
    by (simp add: example_parser_def example_parser_type_def words_of_def)
  have 2: "parse_group_mem_proto example_parser (1, ''protocol IGMPv2'') = Inr IGMPv2"
    by (simp add: example_parser_def example_group_mem_proto_def words_of_def)
  have 3: "get_parser_type example_parser (2, ''protocol MLDv2'') = Inr PT_PROTOCOL"
    by (simp add: example_parser_def example_parser_type_def words_of_def)
  have 4: "parse_group_mem_proto example_parser (2, ''protocol MLDv2'') = Inr MLDv2"
    by (simp add: example_parser_def example_group_mem_proto_def words_of_def)
  have run: "run_parser example_parser
               (initial_configuration False True (separate_commands (delete_comments ?script))) =
             Inr \<lparr>m_in_debug_testing_mode = True,
                  m_reset_reverse_path_filter = False,
                  m_gmp = MLDv2,
                  m_global_table_set = [],
                  m_inst_def_set = [],
                  m_cmds = [(1, ''protocol IGMPv2''), (2, ''protocol MLDv2'')],
                  m_interfaces_map = Map.empty\<rparr>"
    unfolding cmds
    by (simp add: run_parser_def run_command_def initial_configuration_def 1 2 3 4)
  show ?thesis
    unfolding new_configuration_def
    by (simp only: loaded run sum.case) simp
qed

text \<open>
  C5. When a script defines a table and later, after commands that went through, defines
  a table of the same name, the second definition fails with \<open>failed to parse
  configfile\<close>, the error that \<open>run_parser\<close> throws for "table already exists", and so
  does the whole run. The Table Set is not changed by the failed insertion: at that
  moment the first table is still its only entry of that name.
\<close>

theorem duplicate_table_fails:
  assumes "get_parser_type p e1 = Inr PT_TABLE"
    and "parse_table p e1 (m_global_table_set c0) (m_gmp c0) = Inr t1"
    and "run_command p e1 c0 = Inr c1"
    and "run_commands p es c1 = Inr c2"
    and "get_parser_type p e2 = Inr PT_TABLE"
    and "parse_table p e2 (m_global_table_set c2) (m_gmp c2) = Inr t2"
    and "get_name t2 = get_name t1"
  shows "run_command p e2 c2 = Inl Failed_to_parse_configfile \<and>
         run_commands p (e1 # es @ e2 # rest) c0 = Inl Failed_to_parse_configfile \<and>
         table_set_insert t2 (m_global_table_set c2) = None \<and>
         filter (\<lambda>t. get_name t = get_name t1) (m_global_table_set c2) = [t1]"
proof -
  from assms(1-3) have ins: "table_set_insert t1 (m_global_table_set c0) = Some (m_global_table_set c1)"
    by (auto simp: run_command_def split: option.splits)
  then have new: "get_name t1 \<notin> set (map get_name (m_global_table_set c0))"
    and c1: "m_global_table_set c1 = m_global_table_set c0 @ [t1]"
    by (auto simp: table_set_insert_def split: if_splits)
  have only1: "filter (\<lambda>t. get_name t = get_name t1) (m_global_table_set c1) = [t1]"
    using new by (simp add: c1 filter_empty_conv) (metis imageI)
  have "get_name t1 \<in> set (map get_name (m_global_table_set c1))"
    by (simp add: c1)
  from run_commands_keeps_table[OF assms(4) this] only1
  have only2: "filter (\<lambda>t. get_name t = get_name t1) (m_global_table_set c2) = [t1]"
    by simp
  then have "t1 \<in> set (m_global_table_set c2)"
    by (metis filter_is_subset list.set_intros(1) subsetD)
  then have none: "table_set_insert t2 (m_global_table_set c2) = None"
    using assms(7) by (auto simp: table_set_insert_def)
  have fail: "run_command p e2 c2 = Inl Failed_to_parse_configfile"
    by (simp add: run_command_def assms(5,6) none)
  have "run_commands p (e1 # es @ e2 # rest) c0 = Inl Failed_to_parse_configfile"
    by (simp add: assms(3,4) run_commands_append fail)
  with fail none only2 show ?thesis by simp
qed

theorem duplicate_table_fails_witness:
  "run_commands example_parser
     [(1, ''table T 10.0.0.0/8''), (2, ''protocol MLDv2''), (3, ''table T 192.168.0.0/16'')]
     (initial_configuration False True [] :: (unit, string list) configuration) =
   Inl Failed_to_parse_configfile"
proof -
  let ?c0 = "initial_configuration False True [] :: (unit, string list) configuration"
  let ?t1 = "\<lparr>get_name = ''T'', get_contents = [''10.0.0.0/8'']\<rparr>"
  let ?t2 = "\<lparr>get_name = ''T'', get_contents = [''192.168.0.0/16'']\<rparr>"
  let ?c1 = "?c0\<lparr>m_global_table_set := [?t1]\<rparr>"
  let ?c2 = "?c1\<lparr>m_gmp := MLDv2\<rparr>"
  have 1: "get_parser_type example_parser (1, ''table T 10.0.0.0/8'') = Inr PT_TABLE"
    by (simp add: example_parser_def example_parser_type_def words_of_def)
  have 2: "parse_table example_parser (1, ''table T 10.0.0.0/8'')
             (m_global_table_set ?c0) (m_gmp ?c0) = Inr ?t1"
    by (simp add: example_parser_def example_table_def words_of_def)
  have 3: "run_command example_parser (1, ''table T 10.0.0.0/8'') ?c0 = Inr ?c1"
    using 1 2 by (simp add: run_command_def table_set_insert_def initial_configuration_def)
  have 4: "run_commands example_parser [(2, ''protocol MLDv2'')] ?c1 = Inr ?c2"
    by (simp add: run_command_def example_parser_def example_parser_type_def
        example_group_mem_proto_def words_of_def)
  have 5: "get_parser_type example_parser (3, ''table T 192.168.0.0/16'') = Inr PT_TABLE"
    by (simp add: example_parser_def example_parser_type_def words_of_def)
  have 6: "parse_table example_parser (3, ''table T 192.168.0.0/16'')
             (m_global_table_set ?c2) (m_gmp ?c2) = Inr ?t2"
    by (simp add: example_parser_def example_table_def words_of_def)
  have 7: "get_name ?t2 = get_name ?t1" by simp
  from duplicate_table_fails[OF 1 2 3 4 5 6 7, of "[]"] show ?thesis by simp
qed

subsection \<open>Interface resolution\<close>











declare initalize_instances.simps(2) [simp del]


















end
